theory Spec2Isabelle
  imports Main "HOL-Library.Word" "HOL-Library.Multiset"
begin

unbundle bit_operations_syntax

section \<open>Data model\<close>

text \<open>
  The decoder of \<^verbatim>\<open>src/main.py\<close> (function \<^verbatim>\<open>ncmdump\<close>) works on Python
  \<^verbatim>\<open>bytes\<close> and \<^verbatim>\<open>bytearray\<close> values. An element of either is an integer in
  \<open>0..255\<close>, modelled as an 8-bit word; Python's own integers (indices, lengths, the
  sums that are masked with \<^verbatim>\<open>& 0xff\<close>) are unbounded and modelled as \<open>nat\<close>,
  since none of them can become negative.
\<close>

type_synonym byte = "8 word"

text \<open>The Python exceptions the decoder can end in.\<close>

datatype exn =
    AssertionError
  | StructError
  | IndexError
  | ValueError
  | BinasciiError
  | UnicodeDecodeError
  | JSONDecodeError
  | KeyError
  | TypeError
  | OSError

text \<open>Sequencing of statements that may raise: the first exception ends the run.\<close>

definition ebind :: "exn + 'a \<Rightarrow> ('a \<Rightarrow> exn + 'b) \<Rightarrow> exn + 'b" where
  "ebind m f = (case m of Inl e \<Rightarrow> Inl e | Inr x \<Rightarrow> f x)"

text \<open>
  \<^verbatim>\<open>xs[i]\<close> and \<^verbatim>\<open>xs[i] = v\<close> for a non-negative index: Python raises
  \<^verbatim>\<open>IndexError\<close> out of range.
\<close>

definition getitem :: "'a list \<Rightarrow> nat \<Rightarrow> exn + 'a" where
  "getitem xs i = (if i < length xs then Inr (xs ! i) else Inl IndexError)"

definition setitem :: "'a list \<Rightarrow> nat \<Rightarrow> 'a \<Rightarrow> exn + 'a list" where
  "setitem xs i v = (if i < length xs then Inr (xs[i := v]) else Inl IndexError)"

section \<open>Key-box scheduling (lines 52--66)\<close>

text \<open>
  \<^verbatim>\<open>
  key_length = len(key_data)
  key_data = bytearray(key_data)
  key_box = bytearray(range(256))
  c = 0
  last_byte = 0
  key_offset = 0
  for i in range(256):
      swap = key_box[i]
      c = (swap + last_byte + key_data[key_offset]) & 0xff
      key_offset += 1
      if key_offset >= key_length:
          key_offset = 0
      key_box[i] = key_box[c]
      key_box[c] = swap
      last_byte = c
  \<close>
  The loop state is the table and the two counters; \<^verbatim>\<open>c\<close> is recomputed in every
  iteration before it is read, so it lives on as \<open>last_byte\<close> only.
\<close>

record ksa_state =
  key_box :: "byte list"
  last_byte :: nat
  key_offset :: nat

definition ksa_step :: "byte list \<Rightarrow> nat \<Rightarrow> ksa_state \<Rightarrow> nat \<Rightarrow> exn + ksa_state" where
  "ksa_step key_data key_length st i =
     ebind (getitem (key_box st) i) (\<lambda>swap.
     ebind (getitem key_data (key_offset st)) (\<lambda>k.
       let c = (unat swap + last_byte st + unat k) AND 255;
           off1 = key_offset st + 1;
           off2 = (if off1 \<ge> key_length then 0 else off1)
       in
     ebind (getitem (key_box st) c) (\<lambda>v.
     ebind (setitem (key_box st) i v) (\<lambda>box1.
     ebind (setitem box1 c swap) (\<lambda>box2.
       Inr \<lparr>key_box = box2, last_byte = c, key_offset = off2\<rparr>)))))"

text \<open>The \<^verbatim>\<open>for\<close> loop over a list of indices.\<close>

fun ksa_loop :: "byte list \<Rightarrow> nat \<Rightarrow> ksa_state \<Rightarrow> nat list \<Rightarrow> exn + ksa_state" where
  "ksa_loop key_data key_length st [] = Inr st"
| "ksa_loop key_data key_length st (i # is) =
     ebind (ksa_step key_data key_length st i) (\<lambda>st'. ksa_loop key_data key_length st' is)"

definition ksa_init :: ksa_state where
  "ksa_init = \<lparr>key_box = map of_nat [0..<256], last_byte = 0, key_offset = 0\<rparr>"

definition build_key_box :: "byte list \<Rightarrow> exn + byte list" where
  "build_key_box key_data =
     ebind (ksa_loop key_data (length key_data) ksa_init [0..<256]) (\<lambda>st. Inr (key_box st))"

section \<open>Payload decryption (lines 85--94)\<close>

text \<open>
  \<^verbatim>\<open>
  for i in range(1, chunk_length + 1):
      j = i & 0xff
      chunk[i - 1] ^= key_box[(key_box[j] + key_box[(key_box[j] + j) & 0xff]) & 0xff]
  \<close>
  The right-hand side reads the table three times, innermost lookup last; every
  lookup is a checked \<open>getitem\<close>.
\<close>

definition keystream :: "byte list \<Rightarrow> nat \<Rightarrow> exn + byte" where
  "keystream box j =
     ebind (getitem box j) (\<lambda>a.
     ebind (getitem box j) (\<lambda>a'.
     ebind (getitem box ((unat a' + j) AND 255)) (\<lambda>b.
       getitem box ((unat a + unat b) AND 255))))"

definition decrypt_step :: "byte list \<Rightarrow> byte list \<Rightarrow> nat \<Rightarrow> exn + byte list" where
  "decrypt_step box chunk i =
     (let j = i AND 255 in
      ebind (getitem chunk (i - 1)) (\<lambda>x.
      ebind (keystream box j) (\<lambda>k.
        setitem chunk (i - 1) (x XOR k))))"

fun decrypt_loop :: "byte list \<Rightarrow> byte list \<Rightarrow> nat list \<Rightarrow> exn + byte list" where
  "decrypt_loop box chunk [] = Inr chunk"
| "decrypt_loop box chunk (i # is) =
     ebind (decrypt_step box chunk i) (\<lambda>chunk'. decrypt_loop box chunk' is)"

definition decrypt_chunk :: "byte list \<Rightarrow> byte list \<Rightarrow> exn + byte list" where
  "decrypt_chunk box chunk = decrypt_loop box chunk [1..<length chunk + 1]"

text \<open>
  \<^verbatim>\<open>
  while True:
      chunk = bytearray(f.read(0x8000))
      chunk_length = len(chunk)
      if not chunk:
          break
      for i in range(1, chunk_length + 1): ...
      m.write(chunk)
  \<close>
  \<open>f\<close> is what is left of the input from the current position, \<open>m\<close> what has been
  written to the output so far. A read of \<open>n\<close> bytes returns \<open>take n f\<close> and leaves
  \<open>drop n f\<close>.
\<close>

function stream_loop :: "byte list \<Rightarrow> byte list \<Rightarrow> byte list \<Rightarrow> exn + byte list" where
  "stream_loop box f m =
     (let chunk = take 32768 f; f' = drop 32768 f in
      if chunk = [] then Inr m
      else case decrypt_chunk box chunk of
             Inl e \<Rightarrow> Inl e
           | Inr chunk' \<Rightarrow> stream_loop box f' (m @ chunk'))"
  by pat_completeness auto
termination
  by (relation "measure (\<lambda>(box, f, m). length f)") auto

declare stream_loop.simps [simp del]

text \<open>
  The transform as the specification words it: the byte at 1-based position \<open>p\<close>,
  counted continuously over the whole payload, is combined with
  \<open>ks = box[(box[j] + box[(box[j] + j) mod 256]) mod 256]\<close> for \<open>j = p mod 256\<close>.
\<close>

definition spec_ks :: "byte list \<Rightarrow> nat \<Rightarrow> byte" where
  "spec_ks box j = box ! ((unat (box ! j) + unat (box ! ((unat (box ! j) + j) mod 256))) mod 256)"

definition spec_decrypt_continuous :: "byte list \<Rightarrow> byte list \<Rightarrow> byte list" where
  "spec_decrypt_continuous box payload =
     map (\<lambda>p. payload ! (p - 1) XOR spec_ks box (p mod 256)) [1..<length payload + 1]"

section \<open>Library functions and fixed constants\<close>

text \<open>
  The decoder calls the \<^verbatim>\<open>cryptography\<close> package and Python's \<^verbatim>\<open>base64\<close>,
  \<^verbatim>\<open>json\<close> and text codecs. They are not code of this repository and are taken as
  parameters: \<open>aes_ecb_decrypt key data\<close> stands for
  \<^verbatim>\<open>Cipher(AES(key), ECB()).decryptor()\<close> with \<^verbatim>\<open>update(data) + finalize()\<close>,
  \<open>subscript v k\<close> for \<^verbatim>\<open>v[k]\<close> on a decoded JSON value and \<open>format_str v\<close> for the
  text an f-string makes of \<open>v\<close>. Python text is a list of code points.

  \<open>open_target ext\<close> stands for \<^verbatim>\<open>open(target_filename, 'wb')\<close> of line 84. The target
  name is the target folder, the input's base name and the extension \<open>ext\<close> taken from
  the container; the first two are fixed by the caller. The call raises
  \<^verbatim>\<open>ValueError\<close> for a name with a NUL character and \<^verbatim>\<open>OSError\<close> (such as
  \<^verbatim>\<open>FileNotFoundError\<close>) when the file system refuses the name.
\<close>

record 'j lib =
  aes_ecb_decrypt :: "byte list \<Rightarrow> byte list \<Rightarrow> exn + byte list"
  b64decode :: "byte list \<Rightarrow> exn + byte list"
  utf8_decode :: "byte list \<Rightarrow> exn + nat list"
  json_loads :: "nat list \<Rightarrow> exn + 'j"
  subscript :: "'j \<Rightarrow> nat list \<Rightarrow> exn + 'j"
  format_str :: "'j \<Rightarrow> nat list"
  open_target :: "nat list \<Rightarrow> exn + unit"

text \<open>\<^verbatim>\<open>binascii.a2b_hex\<close> of the two key literals (lines 33--34).\<close>

definition core_key :: "byte list" where
  "core_key = [0x68, 0x7A, 0x48, 0x52, 0x41, 0x6D, 0x73, 0x6F,
               0x35, 0x6B, 0x49, 0x6E, 0x62, 0x61, 0x78, 0x57]"

definition meta_key :: "byte list" where
  "meta_key = [0x23, 0x31, 0x34, 0x6C, 0x6A, 0x6B, 0x5F, 0x21,
               0x5C, 0x5D, 0x26, 0x30, 0x55, 0x3C, 0x27, 0x28]"

text \<open>
  \<^verbatim>\<open>binascii.b2a_hex\<close>: two lower-case hexadecimal digits (as ASCII bytes) per byte,
  and the literal \<^verbatim>\<open>b'4354454e4644414d'\<close> of line 41.
\<close>

definition hexdigit :: "nat \<Rightarrow> byte" where
  "hexdigit d = (if d < 10 then of_nat (48 + d) else of_nat (87 + d))"

fun b2a_hex :: "byte list \<Rightarrow> byte list" where
  "b2a_hex [] = []"
| "b2a_hex (b # bs) = hexdigit (unat b div 16) # hexdigit (unat b mod 16) # b2a_hex bs"

definition magic_hex :: "byte list" where
  "magic_hex = [0x34, 0x33, 0x35, 0x34, 0x34, 0x35, 0x34, 0x65,
                0x34, 0x36, 0x34, 0x34, 0x34, 0x31, 0x34, 0x64]"

text \<open>The code points of the dictionary key \<^verbatim>\<open>"format"\<close>.\<close>

definition format_key :: "nat list" where
  "format_key = [102, 111, 114, 109, 97, 116]"

text \<open>
  \<^verbatim>\<open>struct.unpack('<I', bytes(x))[0]\<close>: four bytes, little-endian, unsigned;
  \<^verbatim>\<open>struct.error\<close> for any other length.
\<close>

definition unpack_u32 :: "byte list \<Rightarrow> exn + nat" where
  "unpack_u32 bs =
     (if length bs = 4
      then Inr (unat (bs ! 0) + 256 * unat (bs ! 1) + 65536 * unat (bs ! 2)
                + 16777216 * unat (bs ! 3))
      else Inl StructError)"

section \<open>Padding removal (lines 36--37)\<close>

text \<open>
  \<^verbatim>\<open>
  def unpad(s):
      return s[0:-(s[-1] if isinstance(s[-1], int) else ord(s[-1]))]
  \<close>
  \<open>s\<close> is a \<^verbatim>\<open>bytes\<close> value, so \<^verbatim>\<open>s[-1]\<close> is an integer; it raises
  \<^verbatim>\<open>IndexError\<close> on the empty value. \<open>slice_to s stop\<close> is Python's \<^verbatim>\<open>s[0:stop]\<close>:
  a negative bound counts from the end, and every bound is clamped to \<open>0..len(s)\<close>.
\<close>

definition slice_to :: "'a list \<Rightarrow> int \<Rightarrow> 'a list" where
  "slice_to s stop =
     (let n = int (length s);
          e = (if stop < 0 then max 0 (stop + n) else min stop n)
      in take (nat e) s)"

definition unpad :: "byte list \<Rightarrow> exn + byte list" where
  "unpad s =
     (if s = [] then Inl IndexError
      else Inr (slice_to s (- int (unat (last s)))))"

section \<open>Key and metadata unwrapping (lines 46--51 and 70--77)\<close>

text \<open>
  \<^verbatim>\<open>
  key_data_array = bytearray(key_data)
  for i in range(0, len(key_data_array)):
      key_data_array[i] ^= 0x64
  key_data = bytes(key_data_array)
  cryptor = Cipher(algorithms.AES(core_key), modes.ECB(), ...).decryptor()
  key_data = unpad(cryptor.update(key_data) + cryptor.finalize())[17:]
  \<close>
\<close>

definition unwrap_key :: "'j lib \<Rightarrow> byte list \<Rightarrow> exn + byte list" where
  "unwrap_key lib key_data =
     (let key_data_array = map (\<lambda>b. b XOR 0x64) key_data in
      ebind (aes_ecb_decrypt lib core_key key_data_array) (\<lambda>plain.
      ebind (unpad plain) (\<lambda>u.
        Inr (drop 17 u))))"

text \<open>
  \<^verbatim>\<open>
  meta_data_array = bytearray(meta_data)
  for i in range(0, len(meta_data_array)):
      meta_data_array[i] ^= 0x63
  meta_data = bytes(meta_data_array)
  meta_data = base64.b64decode(meta_data[22:])
  cryptor = Cipher(algorithms.AES(meta_key), modes.ECB(), ...).decryptor()
  meta_data = unpad(cryptor.update(meta_data) + cryptor.finalize()).decode('utf-8')[6:]
  meta_data = json.loads(meta_data)
  \<close>
\<close>

definition unwrap_meta :: "'j lib \<Rightarrow> byte list \<Rightarrow> exn + 'j" where
  "unwrap_meta lib meta_data =
     (let meta_data_array = map (\<lambda>b. b XOR 0x63) meta_data in
      ebind (b64decode lib (drop 22 meta_data_array)) (\<lambda>raw.
      ebind (aes_ecb_decrypt lib meta_key raw) (\<lambda>plain.
      ebind (unpad plain) (\<lambda>u.
      ebind (utf8_decode lib u) (\<lambda>text.
        json_loads lib (drop 6 text))))))"

section \<open>The decoder (lines 39--94)\<close>

text \<open>
  The input file is the list of its bytes; \<open>f0\<close>, \<open>f1\<close>, \<dots> are what is left of it from
  the current position: \<^verbatim>\<open>f.read(n)\<close> returns \<open>take n f\<close> and leaves \<open>drop n f\<close>,
  \<^verbatim>\<open>f.seek(n, 1)\<close> leaves \<open>drop n f\<close>. The first part runs up to the opening of
  the target file (lines 83--84) and yields the local variables the rest needs.
\<close>

record 'j header =
  h_key_box :: "byte list"
  h_meta_data :: 'j
  h_crc32 :: nat
  h_image_size :: nat
  h_format :: "nat list"
  h_rest :: "byte list"

definition ncmdump_header :: "'j lib \<Rightarrow> byte list \<Rightarrow> exn + 'j header" where
  "ncmdump_header lib f0 =
     (let header = take 8 f0; f1 = drop 8 f0 in
      if b2a_hex header \<noteq> magic_hex then Inl AssertionError
      else
        let f2 = drop 2 f1;
            key_length = take 4 f2; f3 = drop 4 f2 in
        ebind (unpack_u32 key_length) (\<lambda>key_length.
        let key_data = take key_length f3; f4 = drop key_length f3 in
        ebind (unwrap_key lib key_data) (\<lambda>key_data.
        ebind (build_key_box key_data) (\<lambda>box.
        let meta_length = take 4 f4; f5 = drop 4 f4 in
        ebind (unpack_u32 meta_length) (\<lambda>meta_length.
        let meta_data = take meta_length f5; f6 = drop meta_length f5 in
        ebind (unwrap_meta lib meta_data) (\<lambda>meta_data.
        let crc32 = take 4 f6; f7 = drop 4 f6 in
        ebind (unpack_u32 crc32) (\<lambda>crc32.
        let f8 = drop 5 f7;
            image_size = take 4 f8; f9 = drop 4 f8 in
        ebind (unpack_u32 image_size) (\<lambda>image_size.
        ebind (subscript lib meta_data format_key) (\<lambda>fmt.
        ebind (open_target lib (format_str lib fmt)) (\<lambda>m.
          Inr \<lparr>h_key_box = box, h_meta_data = meta_data, h_crc32 = crc32,
               h_image_size = image_size, h_format = format_str lib fmt,
               h_rest = f9\<rparr>))))))))))"

text \<open>
  The whole run: the format extension of the target name and the bytes written to
  the target file.
\<close>

definition ncmdump :: "'j lib \<Rightarrow> byte list \<Rightarrow> exn + nat list \<times> byte list" where
  "ncmdump lib f0 =
     ebind (ncmdump_header lib f0) (\<lambda>h.
     ebind (stream_loop (h_key_box h) (h_rest h) []) (\<lambda>m.
       Inr (h_format h, m)))"

text \<open>
  An instance of the library parameters for running the decoder on concrete inputs:
  its cipher and codecs return their argument unchanged, a decoded document is its
  own text, and every subscript of it is the document itself. The target file opens
  unless its name holds a NUL character.
\<close>

definition plain_lib :: "nat list lib" where
  "plain_lib =
     \<lparr>aes_ecb_decrypt = (\<lambda>key data. Inr data),
      b64decode = (\<lambda>data. Inr data),
      utf8_decode = (\<lambda>data. Inr (map unat data)),
      json_loads = (\<lambda>text. Inr text),
      subscript = (\<lambda>v k. Inr v),
      format_str = (\<lambda>v. v),
      open_target = (\<lambda>ext. if 0 \<in> set ext then Inl ValueError else Inr ())\<rparr>"

text \<open>The magic constant \<^verbatim>\<open>4354454E4644414D\<close> as bytes.\<close>

definition magic :: "byte list" where
  "magic = [0x43, 0x54, 0x45, 0x4E, 0x46, 0x44, 0x41, 0x4D]"

text \<open>
  The first 69 bytes of a small container for running the decoder: the magic constant,
  two reserved bytes, a key blob of 19 bytes and a metadata blob of 32 bytes, each after
  its length field. Under \<open>plain_lib\<close> the key blob unwraps to the seed key \<open>[0]\<close> and
  the metadata blob to the text \<^verbatim>\<open>mp3\<close>.
\<close>

definition example_prefix :: "byte list" where
  "example_prefix =
     [67, 84, 69, 78, 70, 68, 65, 77, 0, 0, 19, 0, 0, 0, 100, 100, 100, 100, 100,
     100, 100, 100, 100, 100, 100, 100, 100, 100, 100, 100, 100, 100, 101, 32, 0, 0,
     0, 99, 99, 99, 99, 99, 99, 99, 99, 99, 99, 99, 99, 99, 99, 99, 99, 99, 99, 99,
     99, 99, 99, 99, 99, 99, 99, 99, 99, 14, 19, 80, 98]"

section \<open>The scheduling loop on plain numbers\<close>

text \<open>
  For a seed key of one byte the key offset stays 0, and on a table of 256 entries below
  256 no lookup of the loop can fail. \<open>ksa_nat k\<close> is the loop of lines 58--66 for the
  one-byte key \<open>k\<close> on lists of numbers, without these checks: \<open>ksa_swap\<close> is lines 64--66
  and the argument it is given is \<^verbatim>\<open>c\<close> of line 60. It is what the loop is evaluated
  with; \<open>ksa_loop_one_byte\<close> below shows that \<open>ksa_loop\<close> computes the same.
\<close>

definition ksa_swap :: "nat list \<Rightarrow> nat \<Rightarrow> nat \<Rightarrow> nat list \<times> nat" where
  "ksa_swap ns i c = (ns[i := ns ! c, c := ns ! i], c)"

fun ksa_nat :: "nat \<Rightarrow> nat list \<times> nat \<Rightarrow> nat list \<Rightarrow> nat list \<times> nat" where
  "ksa_nat k (ns, l) [] = (ns, l)"
| "ksa_nat k (ns, l) (i # is) = ksa_nat k (ksa_swap ns i ((ns ! i + l + k) mod 256)) is"

section \<open>Basic facts\<close>

lemma and_255_mod: "(n::nat) AND 255 = n mod 256"
proof -
  have "(255::nat) = mask 8"
    by (simp add: mask_eq_exp_minus_1)
  then have "n AND 255 = take_bit 8 n"
    by (simp add: take_bit_eq_mask)
  then show ?thesis
    by (simp add: take_bit_eq_mod)
qed

lemma ebind_Inr [simp]: "ebind (Inr x) f = f x"
  by (simp add: ebind_def)

lemma ebind_Inl [simp]: "ebind (Inl e) f = Inl e"
  by (simp add: ebind_def)

lemma ksa_loop_append:
  "ksa_loop key_data n st (xs @ ys) =
     ebind (ksa_loop key_data n st xs) (\<lambda>st'. ksa_loop key_data n st' ys)"
  by (induction xs arbitrary: st) (auto simp: ebind_def split: sum.splits)

section \<open>The table stays a permutation\<close>

text \<open>
  One iteration on a 256-entry table, with the key offset inside a non-empty key,
  raises nothing and exchanges two entries: the multiset of entries is unchanged.
\<close>

lemma ksa_step_swap:
  assumes "i < 256" and "length (key_box st) = 256" and "key_offset st < length key_data"
  shows "\<exists>st'. ksa_step key_data (length key_data) st i = Inr st'
           \<and> length (key_box st') = 256
           \<and> mset (key_box st') = mset (key_box st)
           \<and> key_offset st' < length key_data"
proof -
  define b where "b = key_box st"
  define c where "c = (unat (b ! i) + last_byte st + unat (key_data ! key_offset st)) mod 256"
  have c: "c < length b"
    using assms(2) by (simp add: c_def b_def)
  have i: "i < length b"
    using assms(1,2) by (simp add: b_def)
  have m: "mset (b[i := b ! c, c := b ! i]) = mset b"
    using c i by (rule mset_swap)
  show ?thesis
    using assms c i m
    by (auto simp add: ksa_step_def getitem_def setitem_def and_255_mod Let_def
        simp flip: b_def c_def)
qed

lemma ksa_loop_swap:
  assumes "\<forall>i\<in>set is. i < 256" and "length (key_box st) = 256"
    and "key_offset st < length key_data"
  shows "\<exists>st'. ksa_loop key_data (length key_data) st is = Inr st'
           \<and> length (key_box st') = 256
           \<and> mset (key_box st') = mset (key_box st)
           \<and> key_offset st' < length key_data"
  using assms
proof (induction "is" arbitrary: st)
  case Nil
  then show ?case by simp
next
  case (Cons i "is")
  from Cons.prems obtain st1 where
    s: "ksa_step key_data (length key_data) st i = Inr st1"
    and l: "length (key_box st1) = 256"
    and m: "mset (key_box st1) = mset (key_box st)"
    and k: "key_offset st1 < length key_data"
    using ksa_step_swap [of i st key_data] by auto
  from Cons.IH [OF _ l k] Cons.prems(1) obtain st2 where
    "ksa_loop key_data (length key_data) st1 is = Inr st2"
    "length (key_box st2) = 256" "mset (key_box st2) = mset (key_box st1)"
    "key_offset st2 < length key_data"
    by auto
  with s m show ?case by simp
qed

lemma unat_init_box: "map unat (map of_nat [0..<256] :: byte list) = [0..<256]"
  by (rule map_idI [THEN trans [OF map_map]]) (simp add: unat_of_nat)

lemma ksa_prefix_perm:
  assumes "key_data \<noteq> []" and "n \<le> 256"
  shows "\<exists>st. ksa_loop key_data (length key_data) ksa_init [0..<n] = Inr st
           \<and> length (key_box st) = 256
           \<and> mset (map unat (key_box st)) = mset [0..<256]"
proof -
  have "\<forall>i\<in>set [0..<n]. i < 256"
    using assms(2) by auto
  moreover have "length (key_box ksa_init) = 256"
    by (simp add: ksa_init_def)
  moreover have "key_offset ksa_init < length key_data"
    using assms(1) by (simp add: ksa_init_def)
  ultimately obtain st where
    r: "ksa_loop key_data (length key_data) ksa_init [0..<n] = Inr st"
    and l: "length (key_box st) = 256"
    and m: "mset (key_box st) = mset (key_box ksa_init)"
    using ksa_loop_swap [of "[0..<n]" ksa_init key_data] by blast
  have "mset (map unat (key_box st)) = image_mset unat (mset (key_box ksa_init))"
    using m by simp
  also have "\<dots> = mset (map unat (key_box ksa_init))"
    by simp
  also have "\<dots> = mset [0..<256]"
    by (simp only: ksa_init_def ksa_state.simps unat_init_box)
  finally show ?thesis
    using r l by blast
qed

text \<open>
  Claim C1. For every seed key of 1 to 64 bytes the scheduling loop raises nothing and
  returns a table of 256 entries that is a permutation of \<open>0..255\<close>: every value
  appears exactly once. The same holds for the table after each of the 256 iterations
  (\<open>n\<close> iterations are the loop over \<open>[0..<n]\<close>), since an iteration only exchanges
  two entries.
\<close>

theorem key_box_permutation:
  assumes "1 \<le> length key_data" and "length key_data \<le> 64"
  shows "(\<exists>box. build_key_box key_data = Inr box \<and> length box = 256
            \<and> mset (map unat box) = mset [0..<256]
            \<and> (\<forall>v < 256. count_list (map unat box) v = 1))
       \<and> (\<forall>n \<le> 256. \<exists>st. ksa_loop key_data (length key_data) ksa_init [0..<n] = Inr st
            \<and> length (key_box st) = 256
            \<and> mset (map unat (key_box st)) = mset [0..<256])"
proof -
  have ne: "key_data \<noteq> []"
    using assms(1) by auto
  from ksa_prefix_perm [OF ne, of 256] obtain st where
    r: "ksa_loop key_data (length key_data) ksa_init [0..<256] = Inr st"
    and l: "length (key_box st) = 256"
    and m: "mset (map unat (key_box st)) = mset [0..<256]"
    by auto
  have cnt: "count_list (map unat (key_box st)) v = 1" if "v < 256" for v
  proof -
    have "count_list (map unat (key_box st)) v = count (mset (map unat (key_box st))) v"
      by (simp only: count_mset)
    also have "\<dots> = count (mset [0..<256]) v"
      by (simp only: m)
    also have "\<dots> = 1"
      using that by (simp add: distinct_count_atmost_1)
    finally show ?thesis .
  qed
  have "build_key_box key_data = Inr (key_box st)"
    by (simp add: build_key_box_def r)
  with l m cnt have first: "\<exists>box. build_key_box key_data = Inr box \<and> length box = 256
            \<and> mset (map unat box) = mset [0..<256]
            \<and> (\<forall>v < 256. count_list (map unat box) v = 1)"
    by blast
  have second: "\<forall>n \<le> 256. \<exists>st. ksa_loop key_data (length key_data) ksa_init [0..<n] = Inr st
            \<and> length (key_box st) = 256
            \<and> mset (map unat (key_box st)) = mset [0..<256]"
    using ksa_prefix_perm [OF ne] by blast
  from first second show ?thesis ..
qed

theorem key_box_permutation_witness:
  "1 \<le> length [0::byte] \<and> length [0::byte] \<le> 64
   \<and> (\<exists>box. build_key_box [0] = Inr box \<and> length box = 256
          \<and> mset (map unat box) = mset [0..<256]
          \<and> count_list (map unat box) 7 = 1)
   \<and> (\<exists>st. ksa_loop [0] (length [0::byte]) ksa_init [0..<4] = Inr st
          \<and> length (key_box st) = 256
          \<and> mset (map unat (key_box st)) = mset [0..<256])"
proof -
  have h1: "1 \<le> length [0::byte]" and h2: "length [0::byte] \<le> 64"
    by simp_all
  from key_box_permutation [OF h1 h2] have
    a: "\<exists>box. build_key_box [0] = Inr box \<and> length box = 256
          \<and> mset (map unat box) = mset [0..<256]
          \<and> (\<forall>v < 256. count_list (map unat box) v = 1)"
    and b: "\<forall>n \<le> 256. \<exists>st. ksa_loop [0] (length [0::byte]) ksa_init [0..<n] = Inr st
          \<and> length (key_box st) = 256
          \<and> mset (map unat (key_box st)) = mset [0..<256]"
    by blast+
  from a obtain box where "build_key_box [0] = Inr box" "length box = 256"
    "mset (map unat box) = mset [0..<256]" "count_list (map unat box) 7 = 1"
    by force
  then have a': "\<exists>box. build_key_box [0] = Inr box \<and> length box = 256
          \<and> mset (map unat box) = mset [0..<256]
          \<and> count_list (map unat box) 7 = 1"
    by blast
  from b have b': "\<exists>st. ksa_loop [0] (length [0::byte]) ksa_init [0..<4] = Inr st
          \<and> length (key_box st) = 256
          \<and> mset (map unat (key_box st)) = mset [0..<256]"
    by simp
  from h1 h2 a' b' show ?thesis
    by blast
qed

section \<open>The payload transform\<close>

lemma ebind_Inr_id: "ebind m Inr = m"
  by (cases m) simp_all

lemma range_from_1: "[1..<n + 1] = map Suc [0..<n]"
  by (simp add: map_Suc_upt del: upt_Suc)

lemma spec_decrypt_index:
  "spec_decrypt_continuous box payload =
     map (\<lambda>q. payload ! q XOR spec_ks box (Suc q mod 256)) [0..<length payload]"
  by (simp only: spec_decrypt_continuous_def range_from_1 map_map o_def diff_Suc_1)

lemma length_spec_decrypt [simp]:
  "length (spec_decrypt_continuous box payload) = length payload"
  by (simp add: spec_decrypt_index)

lemma nth_spec_decrypt:
  "q < length payload \<Longrightarrow>
     spec_decrypt_continuous box payload ! q = payload ! q XOR spec_ks box (Suc q mod 256)"
  by (simp add: spec_decrypt_index)

lemma keystream_spec_ks:
  assumes "length box = 256" and "j < 256"
  shows "keystream box j = Inr (spec_ks box j)"
  using assms by (simp add: keystream_def getitem_def and_255_mod spec_ks_def)

lemma decrypt_step_update:
  assumes "length box = 256" and "1 \<le> i" and "i \<le> length chunk"
  shows "decrypt_step box chunk i =
           Inr (chunk[i - 1 := chunk ! (i - 1) XOR spec_ks box (i mod 256)])"
proof -
  have "keystream box (i mod 256) = Inr (spec_ks box (i mod 256))"
    using assms(1) by (intro keystream_spec_ks) simp_all
  then show ?thesis
    using assms by (simp add: decrypt_step_def getitem_def setitem_def and_255_mod)
qed

lemma decrypt_loop_append:
  "decrypt_loop box chunk (xs @ ys) =
     ebind (decrypt_loop box chunk xs) (\<lambda>chunk'. decrypt_loop box chunk' ys)"
  by (induction xs arbitrary: chunk) (auto simp: ebind_def split: sum.splits)

lemma decrypt_loop_prefix:
  assumes "length box = 256" and "n \<le> length chunk"
  shows "decrypt_loop box chunk (map Suc [0..<n]) =
           Inr (map (\<lambda>q. if q < n then chunk ! q XOR spec_ks box (Suc q mod 256)
                          else chunk ! q) [0..<length chunk])"
  using assms(2)
proof (induction n)
  case 0
  show ?case by (simp add: map_nth)
next
  case (Suc n)
  define mid where "mid = map (\<lambda>q. if q < n then chunk ! q XOR spec_ks box (Suc q mod 256)
                          else chunk ! q) [0..<length chunk]"
  have n: "n < length chunk"
    using Suc.prems by simp
  have lm: "length mid = length chunk"
    by (simp add: mid_def)
  have mn: "mid ! n = chunk ! n"
    using n by (simp add: mid_def)
  have ih: "decrypt_loop box chunk (map Suc [0..<n]) = Inr mid"
    using Suc.IH n by (simp add: mid_def)
  have step: "decrypt_step box mid (Suc n) =
      Inr (mid[n := chunk ! n XOR spec_ks box (Suc n mod 256)])"
    using decrypt_step_update [of box "Suc n" mid] assms(1) n lm mn by simp
  have upd: "mid[n := chunk ! n XOR spec_ks box (Suc n mod 256)] =
      map (\<lambda>q. if q < Suc n then chunk ! q XOR spec_ks box (Suc q mod 256)
                 else chunk ! q) [0..<length chunk]"
  proof (rule nth_equalityI)
    show "length (mid[n := chunk ! n XOR spec_ks box (Suc n mod 256)]) =
        length (map (\<lambda>q. if q < Suc n then chunk ! q XOR spec_ks box (Suc q mod 256)
                 else chunk ! q) [0..<length chunk])"
      by (simp add: lm)
  next
    fix q
    assume "q < length (mid[n := chunk ! n XOR spec_ks box (Suc n mod 256)])"
    then have q: "q < length chunk"
      by (simp add: lm)
    show "mid[n := chunk ! n XOR spec_ks box (Suc n mod 256)] ! q =
        map (\<lambda>q. if q < Suc n then chunk ! q XOR spec_ks box (Suc q mod 256)
                 else chunk ! q) [0..<length chunk] ! q"
    proof (cases "q = n")
      case True
      with n show ?thesis by (simp add: lm)
    next
      case False
      with q show ?thesis by (auto simp: mid_def)
    qed
  qed
  have "map Suc [0..<Suc n] = map Suc [0..<n] @ [Suc n]"
    by simp
  then have "decrypt_loop box chunk (map Suc [0..<Suc n]) =
      ebind (decrypt_loop box chunk (map Suc [0..<n]))
        (\<lambda>chunk'. decrypt_loop box chunk' [Suc n])"
    by (simp only: decrypt_loop_append)
  also have "\<dots> = decrypt_loop box mid [Suc n]"
    by (simp only: ih ebind_Inr)
  also have "\<dots> = decrypt_step box mid (Suc n)"
    by (simp add: ebind_Inr_id)
  also have "\<dots> = Inr (mid[n := chunk ! n XOR spec_ks box (Suc n mod 256)])"
    by (rule step)
  finally show ?case
    by (simp only: upd)
qed

lemma decrypt_chunk_spec:
  assumes "length box = 256"
  shows "decrypt_chunk box chunk = Inr (spec_decrypt_continuous box chunk)"
proof -
  have "decrypt_chunk box chunk = decrypt_loop box chunk (map Suc [0..<length chunk])"
    by (simp only: decrypt_chunk_def range_from_1)
  also have "\<dots> = Inr (map (\<lambda>q. if q < length chunk
        then chunk ! q XOR spec_ks box (Suc q mod 256) else chunk ! q) [0..<length chunk])"
    using assms by (rule decrypt_loop_prefix) simp
  also have "\<dots> = Inr (spec_decrypt_continuous box chunk)"
    by (simp add: spec_decrypt_index)
  finally show ?thesis .
qed

lemma spec_decrypt_twice:
  "spec_decrypt_continuous box (spec_decrypt_continuous box x) = x"
  by (rule nth_equalityI) (simp_all add: nth_spec_decrypt xor.assoc)

lemma spec_decrypt_split:
  "spec_decrypt_continuous box payload =
     spec_decrypt_continuous box (take 32768 payload)
       @ spec_decrypt_continuous box (drop 32768 payload)"
proof (rule nth_equalityI)
  show "length (spec_decrypt_continuous box payload) =
      length (spec_decrypt_continuous box (take 32768 payload)
        @ spec_decrypt_continuous box (drop 32768 payload))"
    by simp
next
  fix q
  assume "q < length (spec_decrypt_continuous box payload)"
  then have q: "q < length payload"
    by simp
  show "spec_decrypt_continuous box payload ! q =
      (spec_decrypt_continuous box (take 32768 payload)
        @ spec_decrypt_continuous box (drop 32768 payload)) ! q"
  proof (cases "q < 32768")
    case True
    with q show ?thesis
      by (simp add: nth_append nth_spec_decrypt)
  next
    case False
    then obtain r where r: "q = 32768 + r"
      using le_Suc_ex [of 32768 q] by auto
    have "32769 + r = Suc r + 128 * 256"
      by simp
    then have m: "(32769 + r) mod 256 = Suc r mod 256"
      by (simp only: mod_mult_self1)
    have l: "min (length payload) 32768 = 32768"
      using q r by simp
    show ?thesis
      using q unfolding r
      by (simp add: nth_append nth_spec_decrypt l m)
  qed
qed

lemma stream_loop_spec:
  "length box = 256 \<Longrightarrow> stream_loop box f m = Inr (m @ spec_decrypt_continuous box f)"
proof (induction box f m rule: stream_loop.induct)
  case (1 box f m)
  show ?case
  proof (cases "f = []")
    case True
    then show ?thesis
      by (subst stream_loop.simps) (simp add: spec_decrypt_index)
  next
    case False
    then have ne: "take 32768 f \<noteq> []"
      by simp
    have c: "decrypt_chunk box (take 32768 f) =
        Inr (spec_decrypt_continuous box (take 32768 f))"
      using "1.prems" by (rule decrypt_chunk_spec)
    have "stream_loop box f m =
        stream_loop box (drop 32768 f) (m @ spec_decrypt_continuous box (take 32768 f))"
      using ne c by (subst stream_loop.simps) (simp add: Let_def)
    also have "\<dots> = Inr ((m @ spec_decrypt_continuous box (take 32768 f))
        @ spec_decrypt_continuous box (drop 32768 f))"
      using "1.IH" [OF refl refl ne c "1.prems"] .
    also have "\<dots> = Inr (m @ spec_decrypt_continuous box f)"
      using spec_decrypt_split [of box f] by simp
    finally show ?thesis .
  qed
qed

text \<open>
  Claim C2. For every 256-entry table and every byte sequence \<open>x\<close> of at most 32768
  bytes (one chunk), the chunk transform raises nothing and applying it twice with the
  same table gives \<open>x\<close> back.
\<close>

theorem decrypt_chunk_involution:
  assumes "length box = 256" and "length x \<le> 32768"
  shows "\<exists>y. decrypt_chunk box x = Inr y \<and> decrypt_chunk box y = Inr x"
proof -
  have "decrypt_chunk box x = Inr (spec_decrypt_continuous box x)"
    using assms(1) by (rule decrypt_chunk_spec)
  moreover have "decrypt_chunk box (spec_decrypt_continuous box x) = Inr x"
    using decrypt_chunk_spec [OF assms(1), of "spec_decrypt_continuous box x"]
    by (simp only: spec_decrypt_twice)
  ultimately show ?thesis
    by blast
qed

theorem decrypt_chunk_involution_witness:
  "length (replicate 256 (7::byte)) = 256 \<and> length [1, 2, 3 :: byte] \<le> 32768
   \<and> (\<exists>y. decrypt_chunk (replicate 256 7) [1, 2, 3] = Inr y
          \<and> decrypt_chunk (replicate 256 7) y = Inr [1, 2, 3])"
proof -
  have h1: "length (replicate 256 (7::byte)) = 256" and h2: "length [1, 2, 3 :: byte] \<le> 32768"
    by simp_all
  from decrypt_chunk_involution [OF h1 h2] h1 h2 show ?thesis
    by blast
qed

text \<open>
  Claim C7. For every 256-entry table and every payload, the decryption of the code,
  which reads chunks of 32768 bytes (the last one possibly shorter) and restarts the
  1-based position in every chunk, writes exactly the bytes obtained by counting the
  position continuously over the whole payload.
\<close>

theorem chunked_equals_continuous:
  assumes "length box = 256"
  shows "stream_loop box payload [] = Inr (spec_decrypt_continuous box payload)"
  using stream_loop_spec [OF assms, of payload "[]"] by simp

theorem chunked_equals_continuous_witness:
  "length (replicate 256 (7::byte)) = 256
   \<and> stream_loop (replicate 256 7) [1, 2, 3] []
       = Inr (spec_decrypt_continuous (replicate 256 7) [1, 2, 3])"
proof -
  have h: "length (replicate 256 (7::byte)) = 256"
    by simp
  from chunked_equals_continuous [OF h] h show ?thesis
    by blast
qed

text \<open>
  Claim C10. For every 256-entry table, every lookup of the per-byte transform is in
  range: the three indices are below 256 whatever the position and the table hold, so
  the key stream byte is produced without \<open>IndexError\<close> for every position, and the
  transform of a chunk of any length returns a chunk of the same length.
\<close>

theorem decrypt_lookups_in_range:
  assumes "length box = 256"
  shows "(\<forall>i. i AND 255 < 256
            \<and> (unat (box ! (i AND 255)) + (i AND 255)) AND 255 < 256
            \<and> (unat (box ! (i AND 255))
                 + unat (box ! ((unat (box ! (i AND 255)) + (i AND 255)) AND 255))) AND 255 < 256
            \<and> (\<exists>k. keystream box (i AND 255) = Inr k))
       \<and> (\<exists>out. decrypt_chunk box chunk = Inr out \<and> length out = length chunk)"
proof -
  have "\<exists>k. keystream box (i AND 255) = Inr k" for i
    using keystream_spec_ks [OF assms, of "i AND 255"] by (simp add: and_255_mod)
  moreover have "\<exists>out. decrypt_chunk box chunk = Inr out \<and> length out = length chunk"
    using decrypt_chunk_spec [OF assms, of chunk] by simp
  ultimately show ?thesis
    by (simp add: and_255_mod)
qed

theorem decrypt_lookups_in_range_witness:
  "length (replicate 256 (7::byte)) = 256
   \<and> (\<exists>k. keystream (replicate 256 7) (300 AND 255) = Inr k)
   \<and> (\<exists>out. decrypt_chunk (replicate 256 7) [1, 2, 3] = Inr out \<and> length out = length [1, 2, 3 :: byte])"
proof -
  have h: "length (replicate 256 (7::byte)) = 256"
    by simp
  from decrypt_lookups_in_range [OF h, of "[1, 2, 3]"] h show ?thesis
    by blast
qed

section \<open>The magic check\<close>

lemma unat_hexdigit:
  "d < 16 \<Longrightarrow> unat (hexdigit d) = (if d < 10 then 48 + d else 87 + d)"
  by (simp add: hexdigit_def unat_of_nat del: of_nat_add of_nat_numeral)

lemma hexdigit_inj:
  assumes "d < 16" and "e < 16" and "hexdigit d = hexdigit e"
  shows "d = e"
proof -
  have "unat (hexdigit d) = unat (hexdigit e)"
    using assms(3) by simp
  then show ?thesis
    using assms(1,2) by (simp add: unat_hexdigit split: if_splits)
qed

lemma hex_pair_inj:
  assumes "hexdigit (unat a div 16) = hexdigit (unat b div 16)"
    and "hexdigit (unat a mod 16) = hexdigit (unat b mod 16)"
  shows "a = (b::byte)"
proof -
  have a: "unat a < 256" and b: "unat b < 256"
    using unsigned_less [of a] unsigned_less [of b] by simp_all
  have "unat a div 16 = unat b div 16"
    using assms(1) a b by (intro hexdigit_inj) simp_all
  moreover have "unat a mod 16 = unat b mod 16"
    using assms(2) by (intro hexdigit_inj) simp_all
  ultimately have "unat a = unat b"
    by (metis div_mult_mod_eq)
  then show ?thesis
    by (rule unsigned_word_eqI)
qed

lemma b2a_hex_inj: "b2a_hex xs = b2a_hex ys \<Longrightarrow> xs = ys"
proof (induction xs arbitrary: ys)
  case Nil
  then show ?case by (cases ys) simp_all
next
  case (Cons x xs)
  then show ?case
    by (cases ys) (auto dest: hex_pair_inj)
qed

lemma b2a_hex_magic: "b2a_hex magic = magic_hex"
  by (simp add: magic_def magic_hex_def hexdigit_def)

text \<open>
  Claim C6. Whenever the first 8 bytes of the input (or all of it, when it is shorter)
  differ from the magic constant, the run ends in the exception of the failed
  \<^verbatim>\<open>assert\<close>. This holds for every choice of the library functions: the result does
  not depend on any cipher, so none has been applied.
\<close>

theorem magic_mismatch_fails_first:
  assumes "take 8 f \<noteq> magic"
  shows "ncmdump lib f = Inl AssertionError"
proof -
  have "b2a_hex (take 8 f) \<noteq> magic_hex"
    using assms b2a_hex_inj [of "take 8 f" magic] by (auto simp: b2a_hex_magic)
  then show ?thesis
    by (simp add: ncmdump_def ncmdump_header_def)
qed

theorem magic_mismatch_fails_first_witness:
  "take 8 [0, 0, 0, 0, 0, 0, 0, 0, 0, 0 :: byte] \<noteq> magic
   \<and> ncmdump plain_lib [0, 0, 0, 0, 0, 0, 0, 0, 0, 0] = Inl AssertionError"
proof -
  have h: "take 8 [0, 0, 0, 0, 0, 0, 0, 0, 0, 0 :: byte] \<noteq> magic"
    by (simp add: magic_def)
  from magic_mismatch_fails_first [OF h] h show ?thesis
    by blast
qed

section \<open>The container layout\<close>

lemma ebind_assoc: "ebind (ebind m f) g = ebind m (\<lambda>x. ebind (f x) g)"
  by (cases m) simp_all

lemma ebind_if: "ebind (if c then a else b) g = (if c then ebind a g else ebind b g)"
  by simp

lemma build_key_box_empty: "build_key_box [] = Inl IndexError"
  by (simp add: build_key_box_def upt_conv_Cons [of 0 256] ksa_step_def getitem_def ksa_init_def)

lemma build_key_box_length:
  assumes "build_key_box key_data = Inr box"
  shows "length box = 256"
proof (cases "key_data = []")
  case True
  with assms show ?thesis
    by (simp add: build_key_box_empty)
next
  case False
  from ksa_prefix_perm [OF False, of 256] assms show ?thesis
    by (auto simp: build_key_box_def)
qed

lemma ncmdump_offsets:
  "ncmdump lib f =
     (if b2a_hex (take 8 f) \<noteq> magic_hex then Inl AssertionError
      else
        ebind (unpack_u32 (take 4 (drop 10 f))) (\<lambda>K.
        ebind (unwrap_key lib (take K (drop 14 f))) (\<lambda>kd.
        ebind (build_key_box kd) (\<lambda>box.
        ebind (unpack_u32 (take 4 (drop (14 + K) f))) (\<lambda>M.
        ebind (unwrap_meta lib (take M (drop (18 + K) f))) (\<lambda>meta.
        ebind (unpack_u32 (take 4 (drop (18 + K + M) f))) (\<lambda>crc.
        ebind (unpack_u32 (take 4 (drop (27 + K + M) f))) (\<lambda>I.
        ebind (subscript lib meta format_key) (\<lambda>fmt.
        ebind (open_target lib (format_str lib fmt)) (\<lambda>t.
        ebind (stream_loop box (drop (31 + K + M) f) []) (\<lambda>m.
          Inr (format_str lib fmt, m))))))))))))"
  by (simp add: ncmdump_def ncmdump_header_def Let_def ebind_assoc add_ac)

lemma ncmdump_header_offsets:
  "ncmdump_header lib f =
     (if b2a_hex (take 8 f) \<noteq> magic_hex then Inl AssertionError
      else
        ebind (unpack_u32 (take 4 (drop 10 f))) (\<lambda>K.
        ebind (unwrap_key lib (take K (drop 14 f))) (\<lambda>kd.
        ebind (build_key_box kd) (\<lambda>box.
        ebind (unpack_u32 (take 4 (drop (14 + K) f))) (\<lambda>M.
        ebind (unwrap_meta lib (take M (drop (18 + K) f))) (\<lambda>meta.
        ebind (unpack_u32 (take 4 (drop (18 + K + M) f))) (\<lambda>crc.
        ebind (unpack_u32 (take 4 (drop (27 + K + M) f))) (\<lambda>I.
        ebind (subscript lib meta format_key) (\<lambda>fmt.
        ebind (open_target lib (format_str lib fmt)) (\<lambda>t.
          Inr \<lparr>h_key_box = box, h_meta_data = meta, h_crc32 = crc,
               h_image_size = I, h_format = format_str lib fmt,
               h_rest = drop (31 + K + M) f\<rparr>))))))))))"
  by (simp add: ncmdump_header_def Let_def add_ac)

lemma ncmdump_header_facts:
  assumes "ncmdump_header lib f = Inr h"
    and "unpack_u32 (take 4 (drop 10 f)) = Inr K"
    and "unpack_u32 (take 4 (drop (14 + K) f)) = Inr M"
  shows "unpack_u32 (take 4 (drop (27 + K + M) f)) = Inr (h_image_size h)"
    and "h_rest h = drop (31 + K + M) f"
    and "length (h_key_box h) = 256"
  using assms
  by (auto simp: ncmdump_header_offsets ebind_def add_ac build_key_box_length
      split: if_splits sum.splits)

lemma ncmdump_of_header:
  assumes "ncmdump_header lib f = Inr h" and "length (h_key_box h) = 256"
  shows "ncmdump lib f = Inr (h_format h, spec_decrypt_continuous (h_key_box h) (h_rest h))"
  using assms stream_loop_spec [of "h_key_box h" "h_rest h" "[]"]
  by (simp add: ncmdump_def)

text \<open>
  Claim C4. Whenever the header of a container is parsed and the target file is opened
  without an exception, with key
  blob length \<open>K\<close> and metadata blob length \<open>M\<close>, the cover-image size \<open>I\<close> is the
  little-endian value of the four bytes at offset \<open>27 + K + M\<close>, the payload is
  everything from offset \<open>31 + K + M\<close> on, immediately after that field, and the
  output is the key stream transform of exactly these bytes: as many bytes as the file
  has after the field, whatever the value of \<open>I\<close>. Nothing is skipped.
\<close>

theorem payload_starts_after_cover_size:
  assumes "ncmdump_header lib f = Inr h"
    and "unpack_u32 (take 4 (drop 10 f)) = Inr K"
    and "unpack_u32 (take 4 (drop (14 + K) f)) = Inr M"
  shows "unpack_u32 (take 4 (drop (27 + K + M) f)) = Inr (h_image_size h)
       \<and> h_rest h = drop (31 + K + M) f
       \<and> ncmdump lib f =
           Inr (h_format h, spec_decrypt_continuous (h_key_box h) (drop (31 + K + M) f))
       \<and> length (spec_decrypt_continuous (h_key_box h) (drop (31 + K + M) f))
           = length f - (31 + K + M)"
proof -
  note facts = ncmdump_header_facts [OF assms]
  have "ncmdump lib f = Inr (h_format h, spec_decrypt_continuous (h_key_box h) (h_rest h))"
    using assms(1) facts(3) by (rule ncmdump_of_header)
  with facts(1,2) show ?thesis
    by simp
qed

text \<open>
  Claim C9. Whenever the header of a container is parsed and the target file is opened
  without an exception, and no byte follows the cover-image size field, the run raises
  nothing and writes no byte.
\<close>

theorem empty_payload_empty_output:
  assumes "ncmdump_header lib f = Inr h" and "h_rest h = []"
  shows "ncmdump lib f = Inr (h_format h, [])"
  using assms by (simp add: ncmdump_def stream_loop.simps [of _ "[]"])

lemma ncmdump_crc_free:
  assumes "length crc = 4"
    and "unpack_u32 (take 4 (drop 10 pre)) = Inr K"
    and "unpack_u32 (take 4 (drop (14 + K) pre)) = Inr M"
    and "length pre = 18 + K + M"
  shows "ncmdump lib (pre @ crc @ post) =
     (if b2a_hex (take 8 pre) \<noteq> magic_hex then Inl AssertionError
      else
        ebind (unwrap_key lib (take K (drop 14 pre))) (\<lambda>kd.
        ebind (build_key_box kd) (\<lambda>box.
        ebind (unwrap_meta lib (take M (drop (18 + K) pre))) (\<lambda>meta.
        ebind (unpack_u32 (take 4 (drop 5 post))) (\<lambda>I.
        ebind (subscript lib meta format_key) (\<lambda>fmt.
        ebind (open_target lib (format_str lib fmt)) (\<lambda>t.
        ebind (stream_loop box (drop 9 post) []) (\<lambda>m.
          Inr (format_str lib fmt, m)))))))))"
  using assms by (simp add: ncmdump_offsets unpack_u32_def)

text \<open>
  Claim C8. Two inputs that agree everywhere except in the four bytes of the CRC32
  field (at offset \<open>18 + K + M\<close>, after the metadata blob) give the same result: the same
  format extension and output bytes, or the same exception.
\<close>

theorem crc_noninterference:
  assumes "length crc1 = 4" and "length crc2 = 4"
    and "unpack_u32 (take 4 (drop 10 pre)) = Inr K"
    and "unpack_u32 (take 4 (drop (14 + K) pre)) = Inr M"
    and "length pre = 18 + K + M"
  shows "ncmdump lib (pre @ crc1 @ post) = ncmdump lib (pre @ crc2 @ post)"
  by (simp only: ncmdump_crc_free [OF assms(1) assms(3-5)]
      ncmdump_crc_free [OF assms(2) assms(3-5)])

lemma example_prefix_length: "length example_prefix = 18 + 19 + 32"
  by (simp add: example_prefix_def)

lemma example_prefix_K: "unpack_u32 (take 4 (drop 10 example_prefix)) = Inr 19"
  by (simp add: example_prefix_def unpack_u32_def)

lemma example_prefix_M: "unpack_u32 (take 4 (drop (14 + 19) example_prefix)) = Inr 32"
  by (simp add: example_prefix_def unpack_u32_def)

lemma example_key: "unwrap_key plain_lib (take 19 (drop 14 example_prefix)) = Inr [0]"
  by (simp add: example_prefix_def unwrap_key_def plain_lib_def unpad_def slice_to_def)

lemma example_meta:
  "unwrap_meta plain_lib (take 32 (drop (18 + 19) example_prefix)) = Inr [109, 112, 51]"
  by (simp add: example_prefix_def unwrap_meta_def plain_lib_def unpad_def slice_to_def)

lemma example_meta_rest:
  "unwrap_meta plain_lib (drop 37 example_prefix) = Inr [109, 112, 51]"
  using example_meta by (simp add: example_prefix_length)

lemma example_magic: "b2a_hex (take 8 example_prefix) = magic_hex"
  by (simp add: example_prefix_def magic_hex_def hexdigit_def)

lemma example_header:
  assumes "build_key_box [0] = Inr box"
  shows "ncmdump_header plain_lib
           (example_prefix @ 1 # 2 # 3 # 4 # 0 # 0 # 0 # 0 # 0 # 5 # 0 # 0 # 0 # payload) =
     Inr \<lparr>h_key_box = box, h_meta_data = [109, 112, 51], h_crc32 = 67305985,
          h_image_size = 5, h_format = [109, 112, 51], h_rest = payload\<rparr>"
proof -
  have s: "subscript plain_lib [109, 112, 51] format_key = Inr [109, 112, 51]"
    "format_str plain_lib [109, 112, 51] = [109, 112, 51]"
    "open_target plain_lib [109, 112, 51] = Inr ()"
    by (simp_all add: plain_lib_def)
  show ?thesis
    using example_prefix_length example_prefix_K example_prefix_M
    by (simp add: ncmdump_header_offsets example_magic example_key example_meta_rest assms s
        unpack_u32_def)
qed

lemma build_key_box_nonempty:
  assumes "key_data \<noteq> []"
  shows "\<exists>box. build_key_box key_data = Inr box \<and> length box = 256"
  using ksa_prefix_perm [OF assms, of 256] by (auto simp: build_key_box_def)

lemma example_unpack_K:
  "unpack_u32 (take 4 (drop 10 (example_prefix @ xs))) = Inr 19"
  using example_prefix_K by (simp add: example_prefix_length)

lemma example_unpack_M:
  "unpack_u32 (take 4 (drop (14 + 19) (example_prefix @ xs))) = Inr 32"
  using example_prefix_M by (simp add: example_prefix_length)

theorem payload_starts_after_cover_size_witness:
  "(\<exists>h. ncmdump_header plain_lib
           (example_prefix @ [1, 2, 3, 4, 0, 0, 0, 0, 0, 5, 0, 0, 0, 9, 9, 9]) = Inr h
        \<and> h_image_size h = 5
        \<and> h_rest h = [9, 9, 9]
        \<and> ncmdump plain_lib
             (example_prefix @ [1, 2, 3, 4, 0, 0, 0, 0, 0, 5, 0, 0, 0, 9, 9, 9])
            = Inr ([109, 112, 51], spec_decrypt_continuous (h_key_box h) [9, 9, 9]))
   \<and> unpack_u32 (take 4 (drop 10
         (example_prefix @ [1, 2, 3, 4, 0, 0, 0, 0, 0, 5, 0, 0, 0, 9, 9, 9]))) = Inr 19
   \<and> unpack_u32 (take 4 (drop (14 + 19)
         (example_prefix @ [1, 2, 3, 4, 0, 0, 0, 0, 0, 5, 0, 0, 0, 9, 9, 9]))) = Inr 32"
proof -
  let ?f = "example_prefix @ [1, 2, 3, 4, 0, 0, 0, 0, 0, 5, 0, 0, 0, 9, 9, 9]"
  obtain box where box: "build_key_box [0] = Inr box"
    using build_key_box_nonempty [of "[0]"] by auto
  let ?h = "\<lparr>h_key_box = box, h_meta_data = [109, 112, 51], h_crc32 = 67305985,
          h_image_size = 5, h_format = [109, 112, 51], h_rest = [9, 9, 9]\<rparr>"
  have hdr: "ncmdump_header plain_lib ?f = Inr ?h"
    using example_header [OF box, of "[9, 9, 9]"] by simp
  have K: "unpack_u32 (take 4 (drop 10 ?f)) = Inr 19"
    by (rule example_unpack_K)
  have M: "unpack_u32 (take 4 (drop (14 + 19) ?f)) = Inr 32"
    by (rule example_unpack_M)
  from payload_starts_after_cover_size [OF hdr K M]
  have "ncmdump plain_lib ?f = Inr ([109, 112, 51], spec_decrypt_continuous box [9, 9, 9])"
    by (simp add: example_prefix_length)
  with hdr K M show ?thesis
    by (intro conjI exI [of _ ?h]) simp_all
qed

theorem empty_payload_empty_output_witness:
  "(\<exists>h. ncmdump_header plain_lib
           (example_prefix @ [1, 2, 3, 4, 0, 0, 0, 0, 0, 5, 0, 0, 0]) = Inr h
        \<and> h_rest h = [])
   \<and> ncmdump plain_lib (example_prefix @ [1, 2, 3, 4, 0, 0, 0, 0, 0, 5, 0, 0, 0])
       = Inr ([109, 112, 51], [])"
proof -
  let ?f = "example_prefix @ [1, 2, 3, 4, 0, 0, 0, 0, 0, 5, 0, 0, 0]"
  obtain box where box: "build_key_box [0] = Inr box"
    using build_key_box_nonempty [of "[0]"] by auto
  let ?h = "\<lparr>h_key_box = box, h_meta_data = [109, 112, 51], h_crc32 = 67305985,
          h_image_size = 5, h_format = [109, 112, 51], h_rest = []\<rparr>"
  have hdr: "ncmdump_header plain_lib ?f = Inr ?h"
    using example_header [OF box, of "[]"] by simp
  have rest: "h_rest ?h = []"
    by simp
  from empty_payload_empty_output [OF hdr rest]
  have "ncmdump plain_lib ?f = Inr ([109, 112, 51], [])"
    by simp
  with hdr show ?thesis
    by (intro conjI exI [of _ ?h]) simp_all
qed

theorem crc_noninterference_witness:
  "length [1, 2, 3, 4 :: byte] = 4 \<and> length [9, 9, 9, 9 :: byte] = 4
   \<and> unpack_u32 (take 4 (drop 10 example_prefix)) = Inr 19
   \<and> unpack_u32 (take 4 (drop (14 + 19) example_prefix)) = Inr 32
   \<and> length example_prefix = 18 + 19 + 32
   \<and> ncmdump plain_lib (example_prefix @ [1, 2, 3, 4] @ [0, 0, 0, 0, 0, 5, 0, 0, 0, 9, 9, 9])
       = ncmdump plain_lib (example_prefix @ [9, 9, 9, 9] @ [0, 0, 0, 0, 0, 5, 0, 0, 0, 9, 9, 9])
   \<and> \<not> isl (ncmdump plain_lib
              (example_prefix @ [1, 2, 3, 4] @ [0, 0, 0, 0, 0, 5, 0, 0, 0, 9, 9, 9]))"
proof -
  have l1: "length [1, 2, 3, 4 :: byte] = 4" and l2: "length [9, 9, 9, 9 :: byte] = 4"
    by simp_all
  note eq = crc_noninterference [OF l1 l2 example_prefix_K example_prefix_M
      example_prefix_length, of plain_lib "[0, 0, 0, 0, 0, 5, 0, 0, 0, 9, 9, 9]"]
  obtain box where box: "build_key_box [0] = Inr box" and lb: "length box = 256"
    using build_key_box_nonempty [of "[0]"] by auto
  have "ncmdump_header plain_lib
          (example_prefix @ [1, 2, 3, 4] @ [0, 0, 0, 0, 0, 5, 0, 0, 0, 9, 9, 9]) =
        Inr \<lparr>h_key_box = box, h_meta_data = [109, 112, 51], h_crc32 = 67305985,
          h_image_size = 5, h_format = [109, 112, 51], h_rest = [9, 9, 9]\<rparr>"
    using example_header [OF box, of "[9, 9, 9]"] by simp
  then have "\<not> isl (ncmdump plain_lib
              (example_prefix @ [1, 2, 3, 4] @ [0, 0, 0, 0, 0, 5, 0, 0, 0, 9, 9, 9]))"
    using ncmdump_of_header lb by fastforce
  with l1 l2 example_prefix_K example_prefix_M example_prefix_length eq show ?thesis
    by blast
qed

section \<open>Padding removal is unchecked\<close>

lemma slice_to_neg:
  "slice_to s (- int n) = (if n = 0 then [] else take (length s - n) s)"
proof (cases "n = 0")
  case True
  then show ?thesis
    by (simp add: slice_to_def)
next
  case False
  have "nat (max 0 (- int n + int (length s))) = length s - n"
    by arith
  with False show ?thesis
    by (simp add: slice_to_def Let_def)
qed

lemma unpad_nonempty:
  assumes "s \<noteq> []"
  shows "unpad s = Inr (if unat (last s) = 0 then [] else take (length s - unat (last s)) s)"
  using assms by (simp only: unpad_def slice_to_neg if_False)

text \<open>
  Claim C3, as amended. Let the AES-ECB decryption \<open>s\<close> of a key blob be non-empty and
  end in a padding-length byte \<open>N\<close> that is 0 or greater than 16. No padding check is
  made: the unwrapped seed key is \<open>s\<close> without its last \<open>N\<close> bytes (nothing at all when
  \<open>N = 0\<close>) and without the first 17 of what is left. When this seed key is empty
  (\<open>N = 0\<close> or \<open>len(s) \<le> N + 17\<close>) the run ends in the IndexError of the first
  key-scheduling step; otherwise the key box is built from the truncated seed key
  and nothing is raised.
\<close>

theorem unpad_strips_without_check:
  assumes "aes_ecb_decrypt lib core_key (map (\<lambda>b. b XOR 0x64) key_data) = Inr s"
    and "s \<noteq> []"
    and "unat (last s) = 0 \<or> 16 < unat (last s)"
  shows "unwrap_key lib key_data =
           Inr (if unat (last s) = 0 then []
                else drop 17 (take (length s - unat (last s)) s))
       \<and> (unat (last s) = 0 \<or> length s \<le> unat (last s) + 17 \<longrightarrow>
            ebind (unwrap_key lib key_data) build_key_box = Inl IndexError)
       \<and> (unat (last s) \<noteq> 0 \<and> unat (last s) + 17 < length s \<longrightarrow>
            (\<exists>box. ebind (unwrap_key lib key_data) build_key_box = Inr box
                   \<and> length box = 256))"
proof -
  let ?n = "unat (last s)"
  have u: "unwrap_key lib key_data =
      Inr (if ?n = 0 then [] else drop 17 (take (length s - ?n) s))"
    using assms(1) unpad_nonempty [OF assms(2)] by (simp add: unwrap_key_def)
  have e: "ebind (unwrap_key lib key_data) build_key_box = Inl IndexError"
    if "?n = 0 \<or> length s \<le> ?n + 17"
    using that by (auto simp: u build_key_box_empty)
  have b: "\<exists>box. ebind (unwrap_key lib key_data) build_key_box = Inr box \<and> length box = 256"
    if "?n \<noteq> 0" and "?n + 17 < length s"
  proof -
    have "drop 17 (take (length s - ?n) s) \<noteq> []"
      using that by simp
    from build_key_box_nonempty [OF this] that(1) show ?thesis
      by (simp add: u)
  qed
  from u e b show ?thesis
    by blast
qed

theorem unpad_strips_without_check_witness:
  "aes_ecb_decrypt plain_lib core_key
       (map (\<lambda>b. b XOR 0x64) (replicate 47 0x64 @ [0x75])) = Inr (replicate 47 0 @ [17])
   \<and> replicate 47 0 @ [17 :: byte] \<noteq> []
   \<and> (unat (last (replicate 47 0 @ [17 :: byte])) = 0
        \<or> 16 < unat (last (replicate 47 0 @ [17 :: byte])))
   \<and> unwrap_key plain_lib (replicate 47 0x64 @ [0x75]) = Inr (replicate 14 0)
   \<and> (\<exists>box. ebind (unwrap_key plain_lib (replicate 47 0x64 @ [0x75])) build_key_box = Inr box
          \<and> length box = 256)"
proof -
  have h1: "aes_ecb_decrypt plain_lib core_key
       (map (\<lambda>b. b XOR 0x64) (replicate 47 0x64 @ [0x75])) = Inr (replicate 47 0 @ [17])"
    by (simp add: plain_lib_def)
  have h2: "replicate 47 0 @ [17 :: byte] \<noteq> []"
    by simp
  have h3: "unat (last (replicate 47 0 @ [17 :: byte])) = 0
        \<or> 16 < unat (last (replicate 47 0 @ [17 :: byte]))"
    by simp
  note t = unpad_strips_without_check [OF h1 h2 h3]
  have c: "unat (last (replicate 47 0 @ [17 :: byte])) \<noteq> 0
      \<and> unat (last (replicate 47 0 @ [17 :: byte])) + 17 < length (replicate 47 0 @ [17 :: byte])"
    by simp
  have a: "unwrap_key plain_lib (replicate 47 0x64 @ [0x75]) = Inr (replicate 14 0)"
    using t by simp
  have b: "\<exists>box. ebind (unwrap_key plain_lib (replicate 47 0x64 @ [0x75])) build_key_box = Inr box
          \<and> length box = 256"
    using t c by blast
  from h1 h2 h3 a b show ?thesis
    by blast
qed

text \<open>
  Claim C3, as stated, fails. A decrypted key blob of 48 bytes that ends in the byte 17
  has an invalid padding length; \<open>unpad\<close> returns its first 31 bytes, and the key box is
  built from the 14 bytes after the 17-byte prefix without any exception. The last
  conjunct runs the unwrapping on the blob whose decryption this is under \<open>plain_lib\<close>,
  which leaves the blob unchanged (AES is a bijection on blocks, so a blob with this
  decryption exists for the real cipher as well).
\<close>

theorem padding_error_counterexample:
  "16 < unat (last (replicate 47 0 @ [17 :: byte]))
   \<and> unpad (replicate 47 0 @ [17]) = Inr (replicate 31 0)
   \<and> \<not> isl (build_key_box (drop 17 (replicate 31 0)))
   \<and> unwrap_key plain_lib (replicate 47 0x64 @ [0x75]) = Inr (replicate 14 0)"
proof -
  have "unpad (replicate 47 0 @ [17]) = Inr (replicate 31 0)"
    by (simp add: unpad_nonempty)
  moreover have "\<not> isl (build_key_box (drop 17 (replicate 31 0)))"
    using build_key_box_nonempty [of "drop 17 (replicate 31 0)"] by auto
  moreover have "unwrap_key plain_lib (replicate 47 0x64 @ [0x75]) = Inr (replicate 14 0)"
    by (simp add: unwrap_key_def plain_lib_def unpad_nonempty)
  ultimately show ?thesis
    by simp
qed

section \<open>The table of the seed key 0x00\<close>

lemma nth_Cons_pred: "(x # xs) ! numeral v = xs ! pred_numeral v"
  by (simp add: numeral_eq_Suc)

lemma nth_Cons_one: "(x # xs) ! 1 = xs ! 0"
  by simp

lemma upd_Cons_0: "(x # xs)[0 := v] = v # xs"
  by simp

lemma upd_Cons_pred: "(x # xs)[numeral k := v] = x # xs[pred_numeral k := v]"
  by (simp add: numeral_eq_Suc)

lemma upd_Cons_one: "(x # xs)[1 := v] = x # xs[0 := v]"
  by simp

lemmas list_eval = nth_Cons_pred nth_Cons_one nth_Cons_0 upd_Cons_0 upd_Cons_pred upd_Cons_one
  pred_numeral_simps BitM.simps numeral_One

lemma mod256_small: "(n::nat) < 256 \<Longrightarrow> n mod 256 = n"
  by simp

lemma mod256_big: "256 \<le> (n::nat) \<Longrightarrow> n < 512 \<Longrightarrow> n mod 256 = n - 256"
  by (simp add: mod_if)

lemma nat_one_eval: "nat 1 = (1::nat)"
  by simp

lemmas arith_eval = mod256_small mod256_big nat_one_eval nat_0
  arith_simps rel_simps more_arith_simps
  numeral_plus_numeral add_0 add_0_right diff_nat_numeral nat_numeral
  diff_numeral_simps numeral_plus_one one_plus_numeral one_add_one
  zero_less_numeral not_numeral_less_zero zero_le numeral_le_iff numeral_less_iff
  simp_thms prod.inject list.inject refl

lemma upt_0_numeral: "[0..<numeral n] = 0 # [1..<numeral n]"
proof -
  have "0 < (numeral n :: nat)"
    by (rule zero_less_numeral)
  then have "[0..<numeral n] = 0 # [Suc 0..<numeral n]"
    by (rule upt_conv_Cons)
  then show ?thesis
    by (simp only: flip: One_nat_def)
qed

lemma upt_1_numeral: "[1..<numeral (Num.Bit0 n)] = 1 # [2..<numeral (Num.Bit0 n)]"
proof -
  have "1 < (numeral (Num.Bit0 n) :: nat)"
    by (simp only: one_less_numeral_iff less_num_simps)
  then have "[1..<numeral (Num.Bit0 n)] = 1 # [Suc 1..<numeral (Num.Bit0 n)]"
    by (rule upt_conv_Cons)
  then show ?thesis
    by (simp only: Suc_1)
qed

lemma upt_numeral_Cons:
  assumes "numeral m < (numeral n :: nat)"
  shows "[numeral m..<numeral n] = numeral m # [numeral (m + Num.One)..<numeral n]"
proof -
  have "[numeral m..<numeral n] = numeral m # [Suc (numeral m)..<numeral n]"
    using assms by (rule upt_conv_Cons)
  then show ?thesis
    by (simp only: Suc_numeral)
qed

lemma upt_numeral_Nil:
  assumes "\<not> numeral m < (numeral n :: nat)"
  shows "[numeral m..<numeral n] = []"
proof -
  have "numeral n \<le> (numeral m :: nat)"
    using assms by (simp only: not_less)
  then show ?thesis
    by (rule upt_conv_Nil)
qed

lemma take_Cons_pred: "take (numeral k) (x # xs) = x # take (pred_numeral k) xs"
  by (simp add: numeral_eq_Suc)

lemmas upt_eval = upt_0_numeral upt_1_numeral upt_numeral_Cons upt_numeral_Nil simp_thms
  rel_simps arith_simps

lemmas take_eval = take_Cons_pred take_0 fst_conv pred_numeral_simps BitM.simps

lemma zero_key_first_four_after_4:
  "take 4 (fst (ksa_nat 0 ([0..<256], 0) [0..<4])) = [0, 1, 3, 5]"
  apply (simp only: upt_eval)
  apply (simp only: ksa_swap_def ksa_nat.simps list_eval arith_eval)
  apply (simp only: take_eval)
  done

lemma zero_key_first_four:
  "take 4 (fst (ksa_nat 0 ([0..<256], 0) [0..<256])) = [0, 35, 3, 43]"
  apply (simp only: upt_eval)
  apply (simp only: ksa_swap_def ksa_nat.simps list_eval arith_eval)
  apply (simp only: take_eval)
  done

lemma ksa_step_one_byte:
  assumes "length ns = 256" and "\<forall>n\<in>set ns. n < 256" and "i < 256"
  shows "ksa_step [kb] (length [kb]) \<lparr>key_box = map of_nat ns, last_byte = l, key_offset = 0\<rparr> i =
           Inr \<lparr>key_box = map of_nat (fst (ksa_swap ns i ((ns ! i + l + unat kb) mod 256))),
                last_byte = (ns ! i + l + unat kb) mod 256, key_offset = 0\<rparr>"
proof -
  have "ns ! i < 256"
    using assms by simp
  then have u: "unat (of_nat (ns ! i) :: byte) = ns ! i"
    by (simp add: unat_of_nat)
  show ?thesis
    using assms
    by (simp add: ksa_step_def getitem_def setitem_def and_255_mod Let_def u ksa_swap_def
        map_update)
qed

lemma ksa_swap_table:
  assumes "length ns = 256" and "\<forall>n\<in>set ns. n < 256" and "i < 256" and "c < 256"
  shows "length (fst (ksa_swap ns i c)) = 256"
    and "\<forall>n\<in>set (fst (ksa_swap ns i c)). n < 256"
    and "snd (ksa_swap ns i c) = c"
proof -
  have "set (ns[i := ns ! c, c := ns ! i]) \<subseteq> insert (ns ! i) (insert (ns ! c) (set ns))"
    by (meson set_update_subset_insert subset_trans insert_mono)
  moreover have "ns ! i \<in> set ns" and "ns ! c \<in> set ns"
    using assms by simp_all
  ultimately show "\<forall>n\<in>set (fst (ksa_swap ns i c)). n < 256"
    using assms(2) by (auto simp: ksa_swap_def)
qed (use assms in \<open>simp_all add: ksa_swap_def\<close>)

lemma ksa_loop_one_byte:
  assumes "length ns = 256" and "\<forall>n\<in>set ns. n < 256" and "\<forall>i\<in>set is. i < 256"
  shows "ksa_loop [kb] (length [kb]) \<lparr>key_box = map of_nat ns, last_byte = l, key_offset = 0\<rparr> is =
           Inr \<lparr>key_box = map of_nat (fst (ksa_nat (unat kb) (ns, l) is)),
                last_byte = snd (ksa_nat (unat kb) (ns, l) is), key_offset = 0\<rparr>"
  using assms
proof (induction "is" arbitrary: ns l)
  case Nil
  then show ?case by simp
next
  case (Cons i "is")
  define c where "c = (ns ! i + l + unat kb) mod 256"
  obtain ns' where sw: "ksa_swap ns i c = (ns', c)"
    by (simp add: ksa_swap_def)
  have i: "i < 256" and c: "c < 256"
    using Cons.prems(3) by (simp_all add: c_def)
  have l': "length ns' = 256" and b': "\<forall>n\<in>set ns'. n < 256"
    using ksa_swap_table [OF Cons.prems(1,2) i c] by (simp_all add: sw)
  have "ksa_step [kb] (length [kb]) \<lparr>key_box = map of_nat ns, last_byte = l, key_offset = 0\<rparr> i =
      Inr \<lparr>key_box = map of_nat ns', last_byte = c, key_offset = 0\<rparr>"
    using ksa_step_one_byte [OF Cons.prems(1,2) i, of kb l] by (simp add: sw flip: c_def)
  moreover have "ksa_loop [kb] (length [kb])
        \<lparr>key_box = map of_nat ns', last_byte = c, key_offset = 0\<rparr> is =
      Inr \<lparr>key_box = map of_nat (fst (ksa_nat (unat kb) (ns', c) is)),
           last_byte = snd (ksa_nat (unat kb) (ns', c) is), key_offset = 0\<rparr>"
    using Cons.prems(3) by (intro Cons.IH l' b') simp
  ultimately show ?case
    by (simp add: sw flip: c_def)
qed

lemma zero_key_loop:
  "ksa_loop [0] (length [0::byte]) ksa_init [0..<n] =
     Inr \<lparr>key_box = map of_nat (fst (ksa_nat 0 ([0..<256], 0) [0..<n])),
          last_byte = snd (ksa_nat 0 ([0..<256], 0) [0..<n]), key_offset = 0\<rparr>"
  if "n \<le> 256"
proof -
  have "length [0..<256] = 256" and "\<forall>m\<in>set [0..<256]. m < 256"
    and "\<forall>i\<in>set [0..<n]. i < 256"
    using that by simp_all
  from ksa_loop_one_byte [OF this, of 0 0] show ?thesis
    by (simp only: ksa_init_def unat_0)
qed

lemma zero_key_box:
  "build_key_box [0] = Inr (map of_nat (fst (ksa_nat 0 ([0..<256], 0) [0..<256])))"
  using zero_key_loop [of 256] by (simp add: build_key_box_def)

lemma zero_key_bytes:
  "take 4 (map of_nat (fst (ksa_nat 0 ([0..<256], 0) [0..<256])) :: byte list) = [0, 35, 3, 43]"
  "take 4 (map of_nat (fst (ksa_nat 0 ([0..<256], 0) [0..<4])) :: byte list) = [0, 1, 3, 5]"
  by (simp_all only: take_map zero_key_first_four zero_key_first_four_after_4)
    simp_all

text \<open>
  Claim C5, as stated, fails. For the seed key of the single byte 0x00 the table
  returned after all 256 iterations begins with 0, 35, 3, 43 and not with 0, 1, 3, 5:
  iteration 48 exchanges entry 1 again and iteration 76 entry 3.
\<close>

theorem known_vector_counterexample:
  "map_sum id (take 4) (build_key_box [0]) = Inr [0, 35, 3, 43]
   \<and> map_sum id (take 4) (build_key_box [0]) \<noteq> Inr [0, 1, 3, 5]"
  by (simp add: zero_key_box zero_key_bytes)

text \<open>
  Claim C5, as amended. For the seed key of the single byte 0x00, the table after the
  first four of the 256 iterations begins with 0, 1, 3, 5, as traced by hand; the table
  the scheduling returns, after all 256 iterations, begins with 0, 35, 3, 43.
\<close>

theorem known_vector_after_four_steps:
  "map_sum id (\<lambda>st. take 4 (key_box st)) (ksa_loop [0] (length [0::byte]) ksa_init [0..<4])
     = Inr [0, 1, 3, 5]
   \<and> map_sum id (take 4) (build_key_box [0]) = Inr [0, 35, 3, 43]"
  using zero_key_loop [of 4]
  by (simp add: zero_key_box zero_key_bytes)

end
